theory Spec2Isabelle
  imports Main
begin

section \<open>Entities and the entity registry of ccbot (src/entity-registry.ts)\<close>

text \<open>
  The registry keeps the live entities of the bot, writes them to a store of records and
  reloads them when the store changes. JavaScript numbers that hold epoch milliseconds
  are integers here; a property that the source tests with \<^verbatim>\<open>in\<close> or reads as
  possibly undefined is an \<open>option\<close>. The two plain objects used as dictionaries
  (\<^verbatim>\<open>entities\<close>, \<^verbatim>\<open>entityTypes\<close>) are modelled by their own properties; ids and type
  names are taken not to be names of members of \<^verbatim>\<open>Object.prototype\<close>.
\<close>

subsection \<open>Records and entity objects\<close>

text \<open>The interface \<^verbatim>\<open>EntityData\<close> (lines 7-11): the persisted form of an entity.\<close>

record EntityData =
  type :: string
  createTime :: "int option"
  killTime :: "int option"

text \<open>
  The fields of an object of class \<^verbatim>\<open>Entity\<close> (lines 21-42), without the client.
  \<open>ent_id\<close> is \<open>None\<close> for an object that has no \<^verbatim>\<open>id\<close> property, the case
  \<^verbatim>\<open>newEntity\<close> tests on line 178.
\<close>

record entity =
  killed :: bool
  ent_id :: "string option"
  ent_type :: string
  ent_createTime :: int
  ent_killTime :: int

text \<open>
  The constructor (lines 44-55), at clock reading \<open>time\<close>: \<^verbatim>\<open>data.killTime || 0\<close> is 0
  for an absent and for a zero kill time.
\<close>

definition Entity_constructor :: "int \<Rightarrow> string \<Rightarrow> EntityData \<Rightarrow> entity" where
  "Entity_constructor time i data =
     \<lparr> killed = False,
       ent_id = Some i,
       ent_type = type data,
       ent_createTime = (case createTime data of Some t \<Rightarrow> t | None \<Rightarrow> time),
       ent_killTime = (case killTime data of Some k \<Rightarrow> k | None \<Rightarrow> 0) \<rparr>"

text \<open>Lines 56-59: the constructor queues the first expiry check iff the kill time is not 0.\<close>

definition Entity_constructor_queues_check :: "entity \<Rightarrow> bool" where
  "Entity_constructor_queues_check e = (ent_killTime e \<noteq> 0)"

text \<open>
  \<^verbatim>\<open>toSaveData\<close> of the base class (lines 108-116). The constructor assigns \<^verbatim>\<open>killTime\<close>
  on every object, so the test \<^verbatim>\<open>'killTime' in this\<close> holds and the field is written.
\<close>

definition toSaveData :: "entity \<Rightarrow> EntityData" where
  "toSaveData e =
     \<lparr> type = ent_type e, createTime = Some (ent_createTime e), killTime = Some (ent_killTime e) \<rparr>"

subsection \<open>The expiry check of an entity\<close>

text \<open>
  \<^verbatim>\<open>entityCheckIfShouldKill\<close> (lines 66-78) on the object \<open>this\<close>, at clock reading
  \<open>time\<close>, in a surrounding state of type \<open>'w\<close> on which the bound \<^verbatim>\<open>kill()\<close> acts.
  \<open>kill\<close> returns \<open>Inl\<close> when it throws. The result is the state after the check with
  the delay handed to \<^verbatim>\<open>setTimeout\<close> for the next check, \<open>None\<close> when no check is
  scheduled, or the exception of \<open>kill\<close>.
\<close>

definition entityCheckIfShouldKill ::
    "('w \<Rightarrow> string + 'w) \<Rightarrow> int \<Rightarrow> entity \<Rightarrow> 'w \<Rightarrow> string + ('w \<times> int option)" where
  "entityCheckIfShouldKill kill time this w =
     (if killed this then Inr (w, None)
      else if ent_killTime this = 0 then Inr (w, None)
      else if time \<ge> ent_killTime this then
        (case kill w of
           Inl err \<Rightarrow> Inl err
         | Inr w' \<Rightarrow> Inr (w', Some 1000))
      else Inr (w, Some (ent_killTime this - time)))"

text \<open>\<^verbatim>\<open>kill()\<close> of the base class (lines 84-86) throws.\<close>

definition Entity_kill :: "'w \<Rightarrow> string + 'w" where
  "Entity_kill w = Inl ''Subclass did not implement kill()''"

subsection \<open>Decimal strings and property order\<close>

text \<open>\<^verbatim>\<open>idn.toString()\<close> for a non-negative integer.\<close>

definition digit_char :: "nat \<Rightarrow> char" where
  "digit_char d = ''0123456789'' ! d"

fun toString :: "nat \<Rightarrow> string" where
  "toString n = (if n < 10 then [digit_char n] else toString (n div 10) @ [digit_char (n mod 10)])"

declare toString.simps [simp del]

text \<open>The number a string of digits denotes; used to recognise integer-like property names.\<close>

definition digit_val :: "char \<Rightarrow> nat" where
  "digit_val c = of_char c - 48"

definition fromDigits :: "string \<Rightarrow> nat" where
  "fromDigits s = foldl (\<lambda>acc c. acc * 10 + digit_val c) 0 s"

text \<open>
  A property name is an array index when it is the canonical decimal form of an integer
  below \<open>2^32 - 1\<close>. An object enumerates its array-index names first, in ascending
  numeric order, then its other names in the order they were created.
\<close>

definition is_index :: "string \<Rightarrow> bool" where
  "is_index k = (toString (fromDigits k) = k \<and> fromDigits k < 4294967295)"

definition before_key :: "string \<Rightarrow> string \<Rightarrow> bool" where
  "before_key k k' = (is_index k' \<and> fromDigits k' < fromDigits k)"

text \<open>
  A dictionary object as the list of its own properties in enumeration order.
  \<open>has_key\<close> is \<^verbatim>\<open>k in obj\<close>, \<open>delete_key\<close> is \<^verbatim>\<open>delete obj[k]\<close>, and \<open>set_key\<close> is
  \<^verbatim>\<open>obj[k] = v\<close> (an existing property keeps its place).
\<close>

definition has_key :: "string \<Rightarrow> (string \<times> 'a) list \<Rightarrow> bool" where
  "has_key k m = (map_of m k \<noteq> None)"

definition delete_key :: "string \<Rightarrow> (string \<times> 'a) list \<Rightarrow> (string \<times> 'a) list" where
  "delete_key k m = filter (\<lambda>p. fst p \<noteq> k) m"

definition set_key :: "string \<Rightarrow> 'a \<Rightarrow> (string \<times> 'a) list \<Rightarrow> (string \<times> 'a) list" where
  "set_key k v m =
     (if has_key k m then map (\<lambda>p. if fst p = k then (k, v) else p) m
      else if is_index k then
        takeWhile (\<lambda>p. before_key k (fst p)) m @ (k, v) # dropWhile (\<lambda>p. before_key k (fst p)) m
      else m @ [(k, v)])"

text \<open>Decimal strings denote their numbers, so \<open>toString\<close> is injective.\<close>

lemma digit_val_digit_char: "d < 10 \<Longrightarrow> digit_val (digit_char d) = d"
proof -
  assume "d < 10"
  then have "d \<in> {0, 1, 2, 3, 4, 5, 6, 7, 8, 9}" by auto
  then show ?thesis by (auto simp: digit_val_def digit_char_def)
qed

lemma fromDigits_snoc: "fromDigits (s @ [c]) = fromDigits s * 10 + digit_val c"
  by (simp add: fromDigits_def)

lemma fromDigits_toString: "fromDigits (toString n) = n"
proof (induction n rule: toString.induct)
  case (1 n)
  show ?case
  proof (cases "n < 10")
    case True
    then show ?thesis
      by (subst toString.simps) (simp add: fromDigits_def digit_val_digit_char)
  next
    case False
    then have "fromDigits (toString (n div 10)) = n div 10" using 1 by simp
    with False show ?thesis
      by (subst toString.simps) (simp add: fromDigits_snoc digit_val_digit_char)
  qed
qed

lemma toString_inj: "toString m = toString n \<Longrightarrow> m = n"
  by (metis fromDigits_toString)

lemma finite_numeric_keys: "finite {n. has_key (toString n) m}"
proof -
  have "{n. has_key (toString n) m} \<subseteq> fromDigits ` fst ` set m"
  proof
    fix n assume "n \<in> {n. has_key (toString n) m}"
    then have "toString n \<in> fst ` set m"
      by (auto simp: has_key_def dest: map_of_SomeD intro: rev_image_eqI)
    then have "fromDigits (toString n) \<in> fromDigits ` fst ` set m" by (rule imageI)
    then show "n \<in> fromDigits ` fst ` set m" by (simp add: fromDigits_toString)
  qed
  then show ?thesis by (rule finite_subset) simp
qed

text \<open>
  The loop of lines 179-184 from the counter value \<open>idn\<close> on (\<^verbatim>\<open>nid\<close> is
  \<open>toString idn\<close> throughout). It ends because the object has finitely many properties.
\<close>

function find_free_id :: "(string \<times> 'a) list \<Rightarrow> nat \<Rightarrow> string" where
  "find_free_id m idn =
     (if has_key (toString idn) m then find_free_id m (Suc idn) else toString idn)"
  by pat_completeness auto
termination
proof (relation "measure (\<lambda>(m, idn). card {n. idn \<le> n \<and> has_key (toString n) m})")
  show "wf (measure (\<lambda>(m::(string \<times> 'a) list, idn).
          card {n. idn \<le> n \<and> has_key (toString n) m}))"
    by simp
next
  fix m :: "(string \<times> 'a) list" and idn
  assume h: "has_key (toString idn) m"
  have fin: "finite {n. idn \<le> n \<and> has_key (toString n) m}"
    by (rule finite_subset [OF _ finite_numeric_keys [of m]]) auto
  define A where "A = {n. Suc idn \<le> n \<and> has_key (toString n) m}"
  define B where "B = {n. idn \<le> n \<and> has_key (toString n) m}"
  have "A \<subseteq> B" by (auto simp: A_def B_def)
  moreover have "idn \<in> B" using h by (simp add: B_def)
  moreover have "idn \<notin> A" by (simp add: A_def)
  ultimately have "A \<subset> B" by blast
  then have "{n. Suc idn \<le> n \<and> has_key (toString n) m}
      \<subset> {n. idn \<le> n \<and> has_key (toString n) m}"
    by (simp add: A_def B_def)
  then have "card {n. Suc idn \<le> n \<and> has_key (toString n) m}
      < card {n. idn \<le> n \<and> has_key (toString n) m}"
    using fin by (simp add: psubset_card_mono)
  then show "((m, Suc idn), (m, idn))
      \<in> measure (\<lambda>(m, idn). card {n. idn \<le> n \<and> has_key (toString n) m})"
    by simp
qed

declare find_free_id.simps [simp del]

subsection \<open>The state of the registry and of what it talks to\<close>

text \<open>
  A factory (the values of \<^verbatim>\<open>entityTypes\<close>) is an asynchronous constructor: called on a
  record, its promise later rejects with an error (\<open>Inl\<close>) or resolves with the entity
  object that the call constructed (\<open>Inr\<close>, the object's fields).
\<close>

type_synonym factory = "EntityData \<Rightarrow> string + entity"

text \<open>The closure that \<^verbatim>\<open>markPendingFlush\<close> hands to \<^verbatim>\<open>setImmediate\<close> (lines 248-251).\<close>

datatype immediate = FlushCheck

text \<open>
  What an observer sees the registry do: a line on the console, a call of an entity's
  \<^verbatim>\<open>onKill()\<close> hook (by object reference), a call of the store's \<^verbatim>\<open>modify\<close>, and a run of
  \<^verbatim>\<open>resetEntities\<close> past its guard.
\<close>

datatype event = ConsoleLog string | OnKill nat | ModifyCalled | ResetRan

text \<open>The promise \<^verbatim>\<open>newEntity\<close> returns, as far as a step settles it.\<close>

datatype promise = Rejected | Resolved nat | Pending

text \<open>
  The fields of \<^verbatim>\<open>EntityRegistry\<close> (lines 125-137) with the objects they refer to:
  \<open>objs\<close> holds the entity objects the registry has received, an object reference being
  its position; \<open>entities\<close> maps the live ids to references; \<open>entityData\<close> is the
  \<^verbatim>\<open>data\<close> of the store; \<open>factoryPromises\<close> are the promises of factory calls that
  have not settled; \<open>immediates\<close> is the queue of \<^verbatim>\<open>setImmediate\<close>; \<open>trace\<close> is the
  list of events so far.
\<close>

record registry =
  entityTypes :: "string \<Rightarrow> factory option"
  entities :: "(string \<times> nat) list"
  duringOurModification :: bool
  pendingEntityFlush :: bool
  started :: bool
  objs :: "entity list"
  entityData :: "EntityData list"
  factoryPromises :: "(string + entity) list"
  immediates :: "immediate list"
  trace :: "event list"

text \<open>
  The constructor (lines 139-147) on a store holding \<open>data\<close>. Its subscription to the
  store is \<open>onModify_handler\<close> below. Factories are registered by assignment to
  \<^verbatim>\<open>entityTypes\<close> (src/all-entities.ts).
\<close>

definition EntityRegistry_constructor :: "EntityData list \<Rightarrow> registry" where
  "EntityRegistry_constructor data =
     \<lparr> entityTypes = Map.empty, entities = [], duringOurModification = False,
       pendingEntityFlush = False, started = False, objs = [], entityData = data,
       factoryPromises = [], immediates = [], trace = [] \<rparr>"

definition register_factory :: "string \<Rightarrow> factory \<Rightarrow> registry \<Rightarrow> registry" where
  "register_factory t f r = r\<lparr>entityTypes := (entityTypes r)(t \<mapsto> f)\<rparr>"

subsection \<open>The operations of the registry\<close>

text \<open>\<^verbatim>\<open>markPendingFlush\<close> (lines 246-252).\<close>

definition markPendingFlush :: "registry \<Rightarrow> registry" where
  "markPendingFlush r = r\<lparr>pendingEntityFlush := True, immediates := immediates r @ [FlushCheck]\<rparr>"

text \<open>
  The steps both kill operations apply to the live entity \<open>v\<close> under \<open>k\<close>
  (lines 208-211 and 221-224); \<^verbatim>\<open>onKill()\<close> of the base class does nothing.
\<close>

definition kill_steps :: "string \<Rightarrow> nat \<Rightarrow> registry \<Rightarrow> registry" where
  "kill_steps k v r =
     r\<lparr>objs := (objs r)[v := (objs r ! v)\<lparr>killed := True\<rparr>],
       entities := delete_key k (entities r),
       trace := trace r @ [OnKill v]\<rparr>"

text \<open>\<^verbatim>\<open>killEntity\<close> (lines 206-214).\<close>

definition killEntity :: "string \<Rightarrow> registry \<Rightarrow> registry" where
  "killEntity i r =
     markPendingFlush (case map_of (entities r) i of Some v \<Rightarrow> kill_steps i v r | None \<Rightarrow> r)"

text \<open>\<^verbatim>\<open>killAllEntities\<close> (lines 219-227): the loop visits the properties in order.\<close>

fun killAllEntities_loop :: "(string \<times> nat) list \<Rightarrow> registry \<Rightarrow> registry" where
  "killAllEntities_loop [] r = r"
| "killAllEntities_loop ((k, v) # ks) r = killAllEntities_loop ks (kill_steps k v r)"

definition killAllEntities :: "registry \<Rightarrow> registry" where
  "killAllEntities r = markPendingFlush (killAllEntities_loop (entities r) r)"

text \<open>
  \<^verbatim>\<open>newEntity\<close>, the part that runs during the call (lines 166-175 and 196-199), with the
  state of the promise it returns.
\<close>

definition newEntity :: "EntityData \<Rightarrow> registry \<Rightarrow> promise \<times> registry" where
  "newEntity data r =
     (if \<not> started r then (Rejected, r)
      else case entityTypes r (type data) of
        Some f \<Rightarrow> (Pending, r\<lparr>factoryPromises := factoryPromises r @ [f data]\<rparr>)
      | None \<Rightarrow>
          (Rejected,
           r\<lparr>trace := trace r @
              [ConsoleLog (''invalid entity type '' @ type data @ '' was in registry'')]\<rparr>))"

text \<open>
  The callbacks of the factory's promise. On success (lines 176-191) the object \<open>newEnt\<close>
  joins \<open>objs\<close> under a new reference, gets an id if it has none, replaces the live
  entity of that id and is returned. On failure (lines 192-195) the error is logged.
\<close>

definition newEntity_resolved :: "entity \<Rightarrow> registry \<Rightarrow> promise \<times> registry" where
  "newEntity_resolved newEnt r =
     (let nid = (case ent_id newEnt of Some i \<Rightarrow> i | None \<Rightarrow> find_free_id (entities r) 0);
          v = length (objs r);
          r1 = r\<lparr>objs := objs r @ [newEnt\<lparr>ent_id := Some nid\<rparr>]\<rparr>;
          r2 = killEntity nid r1;
          r3 = r2\<lparr>entities := set_key nid v (entities r2)\<rparr>
      in (Resolved v, markPendingFlush r3))"

definition newEntity_rejected :: "string \<Rightarrow> registry \<Rightarrow> promise \<times> registry" where
  "newEntity_rejected err r =
     (Rejected, r\<lparr>trace := trace r @ [ConsoleLog (''entity failed to load '' @ err)]\<rparr>)"

text \<open>
  The \<open>n\<close>-th factory promise in flight settles and its callback runs. Promises settle in
  any order; a number that names no promise leaves everything as it is.
\<close>

definition settle :: "nat \<Rightarrow> registry \<Rightarrow> promise \<times> registry" where
  "settle n r =
     (if n < length (factoryPromises r) then
        (let r' = r\<lparr>factoryPromises := take n (factoryPromises r) @ drop (Suc n) (factoryPromises r)\<rparr>
         in case factoryPromises r ! n of
              Inr newEnt \<Rightarrow> newEntity_resolved newEnt r'
            | Inl err \<Rightarrow> newEntity_rejected err r')
      else (Pending, r))"

text \<open>\<^verbatim>\<open>resetEntities\<close> (lines 232-239); the promises of \<^verbatim>\<open>newEntity\<close> are dropped.\<close>

definition resetEntities :: "registry \<Rightarrow> registry" where
  "resetEntities r =
     (if \<not> started r then r
      else
        (let r1 = killAllEntities (r\<lparr>trace := trace r @ [ResetRan]\<rparr>);
             r2 = foldl (\<lambda>r' entity. snd (newEntity entity r')) r1 (entityData r1)
         in r2\<lparr>pendingEntityFlush := False\<rparr>))"

text \<open>The handler the constructor subscribes to the store (lines 142-146).\<close>

definition onModify_handler :: "registry \<Rightarrow> registry" where
  "onModify_handler r =
     (if started r then
        (if \<not> duringOurModification r then resetEntities r else r)
      else r)"

text \<open>
  Modelled from the spec: \<^verbatim>\<open>DynamicData.modify\<close> (src/dynamic-data.ts is not part of the
  sources at hand). Section 6 of the specification: \<^verbatim>\<open>modify(mutatorFn)\<close> applies the
  mutator to the snapshot, completes before it returns to its caller and triggers the
  \<^verbatim>\<open>onModify\<close> callbacks as part of that. The registry's handler is the subscriber.
\<close>

definition DynamicData_modify :: "(EntityData list \<Rightarrow> EntityData list) \<Rightarrow> registry \<Rightarrow> registry" where
  "DynamicData_modify modifier r =
     onModify_handler (r\<lparr>entityData := modifier (entityData r), trace := trace r @ [ModifyCalled]\<rparr>)"

text \<open>
  \<^verbatim>\<open>saveToDynamicData\<close> (lines 257-268): the mutator empties the array and pushes the
  saved form of every live entity, in the order of the properties.
\<close>

definition saveToDynamicData :: "registry \<Rightarrow> registry" where
  "saveToDynamicData r =
     (if \<not> started r then r
      else
        (let r1 = r\<lparr>duringOurModification := True\<rparr>;
             r2 = DynamicData_modify
                    (\<lambda>d. map (\<lambda>p. toSaveData (objs r1 ! snd p)) (entities r1)) r1
         in r2\<lparr>duringOurModification := False, pendingEntityFlush := False\<rparr>))"

text \<open>\<^verbatim>\<open>start\<close> (lines 155-160).\<close>

definition start :: "registry \<Rightarrow> registry" where
  "start r = (if started r then r else resetEntities (r\<lparr>started := True\<rparr>))"

text \<open>
  Running a queued callback (lines 248-251), and one turn of the event loop's immediate
  phase: the callbacks queued so far run in order; those queued meanwhile wait for the
  next turn.
\<close>

fun run_immediate :: "immediate \<Rightarrow> registry \<Rightarrow> registry" where
  "run_immediate FlushCheck r = (if pendingEntityFlush r then saveToDynamicData r else r)"

definition run_immediates :: "registry \<Rightarrow> registry" where
  "run_immediates r = foldl (\<lambda>r' c. run_immediate c r') (r\<lparr>immediates := []\<rparr>) (immediates r)"

subsection \<open>Sequences of operations\<close>

text \<open>
  What can happen to a registry, one step at a time: a call of one of its methods, the
  settling of a factory promise, a turn of the immediate phase, and a change of the store
  by another party through \<^verbatim>\<open>modify\<close>.
\<close>

datatype operation =
    Start
  | NewEntity EntityData
  | Settle nat
  | KillEntity string
  | KillAllEntities
  | ResetEntities
  | SaveToDynamicData
  | MarkPendingFlush
  | RunImmediates
  | StoreChanged "EntityData list"

fun step :: "operation \<Rightarrow> registry \<Rightarrow> registry" where
  "step Start r = start r"
| "step (NewEntity data) r = snd (newEntity data r)"
| "step (Settle n) r = snd (settle n r)"
| "step (KillEntity i) r = killEntity i r"
| "step KillAllEntities r = killAllEntities r"
| "step ResetEntities r = resetEntities r"
| "step SaveToDynamicData r = saveToDynamicData r"
| "step MarkPendingFlush r = markPendingFlush r"
| "step RunImmediates r = run_immediates r"
| "step (StoreChanged data) r = DynamicData_modify (\<lambda>d. data) r"

definition run :: "operation list \<Rightarrow> registry \<Rightarrow> registry" where
  "run ops r = foldl (\<lambda>r' op. step op r') r ops"

text \<open>The number of calls of the store's \<^verbatim>\<open>modify\<close> so far.\<close>

definition modify_calls :: "registry \<Rightarrow> nat" where
  "modify_calls r = length (filter (\<lambda>e. e = ModifyCalled) (trace r))"

subsection \<open>Notions used in the statements\<close>

text \<open>
  The number of runs of \<^verbatim>\<open>resetEntities\<close> so far.
\<close>

definition reset_runs :: "registry \<Rightarrow> nat" where
  "reset_runs r = length (filter (\<lambda>e. e = ResetRan) (trace r))"

text \<open>
  A well-formed live map: no id and no object occurs twice, and every live reference is an
  object of \<open>objs\<close> whose \<^verbatim>\<open>killed\<close> flag is not set.
\<close>

definition live_ok :: "registry \<Rightarrow> bool" where
  "live_ok r =
     (distinct (map fst (entities r)) \<and> distinct (map snd (entities r)) \<and>
      (\<forall>p \<in> set (entities r). snd p < length (objs r) \<and> \<not> killed (objs r ! snd p)))"

text \<open>
  Factories as constructors: every registered factory, and every factory promise in flight,
  resolves (if it does) with an object whose \<^verbatim>\<open>killed\<close> flag has its initial value
  \<^verbatim>\<open>false\<close> (line 23).
\<close>

definition factories_fresh :: "registry \<Rightarrow> bool" where
  "factories_fresh r =
     ((\<forall>t f d e. entityTypes r t = Some f \<longrightarrow> f d = Inr e \<longrightarrow> \<not> killed e) \<and>
      (\<forall>e. Inr e \<in> set (factoryPromises r) \<longrightarrow> \<not> killed e))"

text \<open>
  From \<open>r\<close> to \<open>r'\<close> no object is lost and no \<^verbatim>\<open>killed\<close> flag is reset.
\<close>

definition objs_mono :: "registry \<Rightarrow> registry \<Rightarrow> bool" where
  "objs_mono r r' =
     (length (objs r) \<le> length (objs r') \<and>
      (\<forall>v < length (objs r). killed (objs r ! v) \<longrightarrow> killed (objs r' ! v)))"



text \<open>
  The factory calls a batch of records leads to, in order: one promise for every record
  whose type has a factory. The console lines of the same batch: one for every record
  whose type has none.
\<close>

definition factory_calls :: "(string \<Rightarrow> factory option) \<Rightarrow> EntityData list \<Rightarrow> (string + entity) list" where
  "factory_calls types ds =
     concat (map (\<lambda>d. case types (type d) of Some f \<Rightarrow> [f d] | None \<Rightarrow> []) ds)"

definition unknown_type_logs :: "(string \<Rightarrow> factory option) \<Rightarrow> EntityData list \<Rightarrow> event list" where
  "unknown_type_logs types ds =
     concat (map (\<lambda>d. case types (type d) of
                         Some f \<Rightarrow> []
                       | None \<Rightarrow> [ConsoleLog (''invalid entity type '' @ type d @ '' was in registry'')]) ds)"

text \<open>
  The objects and the live map after the loop of \<^verbatim>\<open>killAllEntities\<close> over the
  properties \<open>ks\<close>.
\<close>

definition killed_all :: "(string \<times> nat) list \<Rightarrow> entity list \<Rightarrow> entity list" where
  "killed_all ks os = foldl (\<lambda>os' p. os'[snd p := (os' ! snd p)\<lparr>killed := True\<rparr>]) os ks"

definition deleted_all :: "(string \<times> nat) list \<Rightarrow> (string \<times> nat) list \<Rightarrow> (string \<times> nat) list" where
  "deleted_all ks m = foldl (\<lambda>m' p. delete_key (fst p) m') m ks"

text \<open>
  The operations of a registry's owner other than \<^verbatim>\<open>start()\<close>; a change of the store
  by another party is not one of them.
\<close>

fun before_start :: "operation \<Rightarrow> bool" where
  "before_start Start = False"
| "before_start (StoreChanged d) = False"
| "before_start op = True"

text \<open>
  A registry that has not started and holds nothing, and two states that differ at most
  in the pending-flush flag and the queue of callbacks.
\<close>

definition idle :: "registry \<Rightarrow> bool" where
  "idle r = (\<not> started r \<and> entities r = [] \<and> factoryPromises r = [])"

definition same_but_flush :: "registry \<Rightarrow> registry \<Rightarrow> bool" where
  "same_but_flush r r' =
     (r' = r\<lparr>pendingEntityFlush := pendingEntityFlush r', immediates := immediates r'\<rparr>)"




text \<open>
  A registry for concrete runs: the store holds one record of type \<open>x\<close>, whose factory
  builds entities without an id.
\<close>

definition example_record :: EntityData where
  "example_record = \<lparr>type = ''x'', createTime = Some 100, killTime = None\<rparr>"

definition example_factory :: factory where
  "example_factory data = Inr ((Entity_constructor 0 ''unused'' data)\<lparr>ent_id := None\<rparr>)"

definition example_registry :: registry where
  "example_registry =
     register_factory ''x'' example_factory (EntityRegistry_constructor [example_record])"

section \<open>Lemmas about the registry\<close>

subsection \<open>The guards\<close>

lemma onModify_handler_guarded: "duringOurModification r \<Longrightarrow> onModify_handler r = r"
  by (simp add: onModify_handler_def)

lemma saveToDynamicData_started:
  "started r \<Longrightarrow> saveToDynamicData r =
     r\<lparr>entityData := map (\<lambda>p. toSaveData (objs r ! snd p)) (entities r),
       trace := trace r @ [ModifyCalled],
       duringOurModification := False, pendingEntityFlush := False\<rparr>"
  by (simp add: saveToDynamicData_def DynamicData_modify_def onModify_handler_def Let_def)

lemma saveToDynamicData_not_started: "\<not> started r \<Longrightarrow> saveToDynamicData r = r"
  by (simp add: saveToDynamicData_def)

lemma resetEntities_not_started: "\<not> started r \<Longrightarrow> resetEntities r = r"
  by (simp add: resetEntities_def)

lemma newEntity_not_started: "\<not> started r \<Longrightarrow> newEntity data r = (Rejected, r)"
  by (simp add: newEntity_def)

subsection \<open>Killing one entity\<close>

lemma map_of_delete_key [simp]: "map_of (delete_key k m) k = None"
  by (induction m) (auto simp: delete_key_def)




lemma entities_markPendingFlush [simp]: "entities (markPendingFlush r) = entities r"
  by (simp add: markPendingFlush_def)

lemma objs_markPendingFlush [simp]: "objs (markPendingFlush r) = objs r"
  by (simp add: markPendingFlush_def)

lemma entities_kill_steps [simp]: "entities (kill_steps k v r) = delete_key k (entities r)"
  by (simp add: kill_steps_def)

lemma objs_kill_steps [simp]:
  "objs (kill_steps k v r) = (objs r)[v := (objs r ! v)\<lparr>killed := True\<rparr>]"
  by (simp add: kill_steps_def)



subsection \<open>The invariant\<close>

text \<open>
  Every operation keeps the live map well-formed and the factories fresh, and resets no
  \<^verbatim>\<open>killed\<close> flag.
\<close>

lemma objs_mono_refl [simp]: "objs_mono r r"
  by (simp add: objs_mono_def)

lemma objs_mono_trans: "objs_mono r r' \<Longrightarrow> objs_mono r' r'' \<Longrightarrow> objs_mono r r''"
  by (fastforce simp: objs_mono_def)


lemma set_key_split:
  assumes "\<not> has_key k m"
  shows "\<exists>xs ys. m = xs @ ys \<and> set_key k v m = xs @ (k, v) # ys"
proof (cases "is_index k")
  case True
  have "m = takeWhile (\<lambda>p. before_key k (fst p)) m @ dropWhile (\<lambda>p. before_key k (fst p)) m"
    by simp
  moreover have "set_key k v m =
      takeWhile (\<lambda>p. before_key k (fst p)) m @ (k, v) # dropWhile (\<lambda>p. before_key k (fst p)) m"
    using assms True by (simp add: set_key_def)
  ultimately show ?thesis by blast
next
  case False
  then have "set_key k v m = m @ (k, v) # []" using assms by (simp add: set_key_def)
  moreover have "m = m @ []" by simp
  ultimately show ?thesis by blast
qed

lemma has_key_iff: "has_key k m \<longleftrightarrow> k \<in> fst ` set m"
  by (simp add: has_key_def map_of_eq_None_iff)

lemma live_ok_markPendingFlush [simp]: "live_ok (markPendingFlush r) = live_ok r"
  by (simp add: live_ok_def)

lemma live_ok_kill_steps:
  assumes "live_ok r" and "(k, v) \<in> set (entities r)"
  shows "live_ok (kill_steps k v r)"
proof -
  let ?m = "entities r"
  have dk: "distinct (map fst ?m)" and dv: "distinct (map snd ?m)"
    and ok: "\<And>p. p \<in> set ?m \<Longrightarrow> snd p < length (objs r) \<and> \<not> killed (objs r ! snd p)"
    using assms(1) by (auto simp: live_ok_def)
  have other: "snd p \<noteq> v" if "p \<in> set (delete_key k ?m)" for p
  proof
    assume "snd p = v"
    moreover have "p \<in> set ?m" and "fst p \<noteq> k" using that by (auto simp: delete_key_def)
    moreover have "inj_on snd (set ?m)" using dv by (simp add: distinct_map)
    ultimately have "p = (k, v)" using assms(2) inj_onD [of snd "set ?m" p "(k, v)"] by simp
    with \<open>fst p \<noteq> k\<close> show False by simp
  qed
  have "distinct (map fst (delete_key k ?m))"
    using dk by (simp add: delete_key_def distinct_map_filter)
  moreover have "distinct (map snd (delete_key k ?m))"
    using dv by (simp add: delete_key_def distinct_map_filter)
  moreover have "snd p < length (objs (kill_steps k v r)) \<and> \<not> killed (objs (kill_steps k v r) ! snd p)"
    if "p \<in> set (delete_key k ?m)" for p
  proof -
    have "p \<in> set ?m" using that by (auto simp: delete_key_def)
    with ok other [OF that] show ?thesis by simp
  qed
  ultimately show ?thesis by (simp add: live_ok_def)
qed


lemma killed_list_update:
  "u < length xs \<Longrightarrow> killed (xs ! u) \<Longrightarrow> killed (xs[v := (xs ! v)\<lparr>killed := True\<rparr>] ! u)"
  by (cases "u = v") simp_all

lemma objs_mono_kill_steps: "objs_mono r (kill_steps k v r)"
  by (simp add: objs_mono_def killed_list_update)

lemma objs_mono_markPendingFlush: "objs_mono r (markPendingFlush r)"
  by (simp add: objs_mono_def)


lemma factories_fresh_cong:
  "entityTypes r' = entityTypes r \<Longrightarrow> factoryPromises r' = factoryPromises r \<Longrightarrow>
   factories_fresh r' = factories_fresh r"
  by (simp add: factories_fresh_def)

lemma factories_fresh_markPendingFlush [simp]:
  "factories_fresh (markPendingFlush r) = factories_fresh r"
  by (rule factories_fresh_cong) (simp_all add: markPendingFlush_def)

lemma factories_fresh_kill_steps [simp]:
  "factories_fresh (kill_steps k v r) = factories_fresh r"
  by (rule factories_fresh_cong) (simp_all add: kill_steps_def)

lemma factories_fresh_killEntity [simp]:
  "factories_fresh (killEntity i r) = factories_fresh r"
  by (cases "map_of (entities r) i") (simp_all add: killEntity_def)

lemma delete_key_head:
  "distinct (map fst ((k, v) # ks)) \<Longrightarrow> delete_key k ((k, v) # ks) = ks"
  by (auto simp: delete_key_def filter_id_conv)

lemma killAllEntities_loop_inv:
  "live_ok r \<Longrightarrow> entities r = ks \<Longrightarrow>
   live_ok (killAllEntities_loop ks r) \<and> entities (killAllEntities_loop ks r) = []"
proof (induction ks arbitrary: r)
  case Nil
  then show ?case by simp
next
  case (Cons p ks)
  obtain k v where p: "p = (k, v)" by (cases p)
  have "live_ok (kill_steps k v r)"
    using Cons.prems p by (intro live_ok_kill_steps) simp_all
  moreover have "entities (kill_steps k v r) = ks"
    using Cons.prems p by (simp add: live_ok_def delete_key_head)
  ultimately show ?case using Cons.IH [of "kill_steps k v r"] p by simp
qed

lemma killAllEntities_loop_frame:
  "factories_fresh (killAllEntities_loop ks r) = factories_fresh r
   \<and> objs_mono r (killAllEntities_loop ks r)"
proof (induction ks arbitrary: r)
  case Nil
  then show ?case by simp
next
  case (Cons p ks)
  obtain k v where p: "p = (k, v)" by (cases p)
  show ?case
    using Cons.IH [of "kill_steps k v r"] p objs_mono_kill_steps [of r k v]
    by (auto intro: objs_mono_trans)
qed


lemma entities_killAllEntities: "live_ok r \<Longrightarrow> entities (killAllEntities r) = []"
  by (simp add: killAllEntities_def killAllEntities_loop_inv)

lemma factories_fresh_killAllEntities [simp]:
  "factories_fresh (killAllEntities r) = factories_fresh r"
  by (simp add: killAllEntities_def killAllEntities_loop_frame)


lemma newEntity_frame:
  "entities (snd (newEntity d r)) = entities r \<and> objs (snd (newEntity d r)) = objs r
   \<and> entityTypes (snd (newEntity d r)) = entityTypes r
   \<and> started (snd (newEntity d r)) = started r"
  by (simp add: newEntity_def split: option.splits)

lemma live_ok_newEntity [simp]: "live_ok (snd (newEntity d r)) = live_ok r"
  by (simp add: live_ok_def newEntity_frame)






























subsection \<open>Generated ids\<close>

lemma find_free_id_least_from:
  "(\<forall>j<idn. has_key (toString j) m) \<Longrightarrow>
   find_free_id m idn = toString (LEAST n. \<not> has_key (toString n) m)"
proof (induction m idn rule: find_free_id.induct)
  case (1 m idn)
  show ?case
  proof (cases "has_key (toString idn) m")
    case True
    then have "\<forall>j<Suc idn. has_key (toString j) m" using "1.prems" by (auto simp: less_Suc_eq)
    then have "find_free_id m (Suc idn) = toString (LEAST n. \<not> has_key (toString n) m)"
      using "1.IH" True by blast
    then show ?thesis using True by (subst find_free_id.simps) simp
  next
    case False
    have "(LEAST n. \<not> has_key (toString n) m) = idn"
    proof (rule Least_equality)
      show "\<not> has_key (toString idn) m" by (rule False)
      show "idn \<le> y" if "\<not> has_key (toString y) m" for y
        using that "1.prems" by (meson not_le)
    qed
    then show ?thesis using False by (subst find_free_id.simps) simp
  qed
qed

lemma find_free_id_least:
  "find_free_id m 0 = toString (LEAST n. \<not> has_key (toString n) m)"
  by (rule find_free_id_least_from) simp

lemma find_free_id_free: "\<not> has_key (find_free_id m idn) m"
  by (induction m idn rule: find_free_id.induct) (subst find_free_id.simps, simp)

lemma map_of_set_key:
  assumes "\<not> has_key k m"
  shows "map_of (set_key k v m) = (map_of m)(k \<mapsto> v)"
proof -
  obtain xs ys where m: "m = xs @ ys" and s: "set_key k v m = xs @ (k, v) # ys"
    using set_key_split [OF assms] by blast
  have "k \<notin> fst ` set xs" using assms m by (auto simp: has_key_iff)
  then have nx: "map_of xs k = None" by (simp add: map_of_eq_None_iff)
  have "map_of (xs @ (k, v) # ys) x = ((map_of (xs @ ys))(k \<mapsto> v)) x" for x
    using nx by (cases "map_of xs x") (auto simp: map_add_def)
  then have "map_of (xs @ (k, v) # ys) = (map_of (xs @ ys))(k \<mapsto> v)" by (rule ext)
  then show ?thesis using s m by simp
qed

lemma newEntity_resolved_no_id:
  assumes "ent_id newEnt = None"
  shows "newEntity_resolved newEnt r =
     (Resolved (length (objs r)),
      markPendingFlush (markPendingFlush
        (r\<lparr>objs := objs r @ [newEnt\<lparr>ent_id := Some (find_free_id (entities r) 0)\<rparr>],
           entities := set_key (find_free_id (entities r) 0) (length (objs r)) (entities r)\<rparr>)))"
proof -
  have "map_of (entities r) (find_free_id (entities r) 0) = None"
    using find_free_id_free [of "entities r" 0] by (simp add: has_key_def)
  then show ?thesis
    using assms by (simp add: newEntity_resolved_def Let_def killEntity_def markPendingFlush_def)
qed

subsection \<open>Batches and resets\<close>

text \<open>
  A batch of \<^verbatim>\<open>newEntity\<close> calls and \<^verbatim>\<open>resetEntities\<close> on a started registry, as explicit
  states.
\<close>

lemma newEntity_batch:
  "started r \<Longrightarrow>
   foldl (\<lambda>r' entity. snd (newEntity entity r')) r ds =
     r\<lparr>factoryPromises := factoryPromises r @ factory_calls (entityTypes r) ds,
       trace := trace r @ unknown_type_logs (entityTypes r) ds\<rparr>"
proof (induction ds arbitrary: r)
  case Nil
  then show ?case by (simp add: factory_calls_def unknown_type_logs_def)
next
  case (Cons d ds)
  show ?case
  proof (cases "entityTypes r (type d)")
    case None
    then have 1: "snd (newEntity d r) =
        r\<lparr>trace := trace r @ [ConsoleLog (''invalid entity type '' @ type d @ '' was in registry'')]\<rparr>"
      using Cons.prems by (simp add: newEntity_def)
    show ?thesis
      using None Cons.prems
      by (simp add: 1 Cons.IH factory_calls_def unknown_type_logs_def)
  next
    case (Some f)
    then have 1: "snd (newEntity d r) = r\<lparr>factoryPromises := factoryPromises r @ [f d]\<rparr>"
      using Cons.prems by (simp add: newEntity_def)
    show ?thesis
      using Some Cons.prems
      by (simp add: 1 Cons.IH factory_calls_def unknown_type_logs_def)
  qed
qed

lemma killAllEntities_loop_eq:
  "killAllEntities_loop ks r =
     r\<lparr>objs := killed_all ks (objs r),
       entities := deleted_all ks (entities r),
       trace := trace r @ map (\<lambda>p. OnKill (snd p)) ks\<rparr>"
proof (induction ks arbitrary: r)
  case Nil
  then show ?case by (simp add: killed_all_def deleted_all_def)
next
  case (Cons p ks)
  obtain k v where p: "p = (k, v)" by (cases p)
  show ?case
    unfolding p killAllEntities_loop.simps Cons.IH
    by (simp add: kill_steps_def killed_all_def deleted_all_def)
qed

lemma resetEntities_started:
  assumes "started r"
  shows "resetEntities r =
     r\<lparr>objs := killed_all (entities r) (objs r),
       entities := deleted_all (entities r) (entities r),
       immediates := immediates r @ [FlushCheck],
       pendingEntityFlush := False,
       factoryPromises := factoryPromises r @ factory_calls (entityTypes r) (entityData r),
       trace := trace r @ [ResetRan] @ map (\<lambda>p. OnKill (snd p)) (entities r)
                @ unknown_type_logs (entityTypes r) (entityData r)\<rparr>"
proof -
  define r1 where "r1 = killAllEntities (r\<lparr>trace := trace r @ [ResetRan]\<rparr>)"
  have r1: "r1 = r\<lparr>objs := killed_all (entities r) (objs r),
       entities := deleted_all (entities r) (entities r),
       trace := trace r @ [ResetRan] @ map (\<lambda>p. OnKill (snd p)) (entities r),
       pendingEntityFlush := True, immediates := immediates r @ [FlushCheck]\<rparr>"
    by (simp add: r1_def killAllEntities_def killAllEntities_loop_eq markPendingFlush_def)
  have s1: "started r1" using assms by (simp add: r1)
  have "resetEntities r =
      (foldl (\<lambda>r' entity. snd (newEntity entity r')) r1 (entityData r1))\<lparr>pendingEntityFlush := False\<rparr>"
    using assms by (simp add: resetEntities_def Let_def r1_def)
  also have "\<dots> = (r1\<lparr>factoryPromises := factoryPromises r1 @ factory_calls (entityTypes r1) (entityData r1),
       trace := trace r1 @ unknown_type_logs (entityTypes r1) (entityData r1)\<rparr>)\<lparr>pendingEntityFlush := False\<rparr>"
    by (simp only: newEntity_batch [OF s1])
  also have "\<dots> = r\<lparr>objs := killed_all (entities r) (objs r),
       entities := deleted_all (entities r) (entities r),
       immediates := immediates r @ [FlushCheck],
       pendingEntityFlush := False,
       factoryPromises := factoryPromises r @ factory_calls (entityTypes r) (entityData r),
       trace := trace r @ [ResetRan] @ map (\<lambda>p. OnKill (snd p)) (entities r)
                @ unknown_type_logs (entityTypes r) (entityData r)\<rparr>"
    by (simp add: r1)
  finally show ?thesis .
qed

lemma deleted_all_filter: "deleted_all ks m = filter (\<lambda>p. fst p \<notin> fst ` set ks) m"
proof (induction ks arbitrary: m)
  case Nil
  then show ?case by (simp add: deleted_all_def)
next
  case (Cons p ks)
  have "deleted_all (p # ks) m = deleted_all ks (delete_key (fst p) m)"
    by (simp add: deleted_all_def)
  also have "\<dots> = filter (\<lambda>q. fst q \<notin> fst ` set ks) (filter (\<lambda>q. fst q \<noteq> fst p) m)"
    by (simp add: Cons.IH delete_key_def)
  also have "\<dots> = filter (\<lambda>q. fst q \<notin> fst ` set (p # ks)) m"
    by (auto intro: filter_cong)
  finally show ?case .
qed

lemma deleted_all_self [simp]: "deleted_all m m = []"
  by (simp add: deleted_all_filter)

subsection \<open>Before the start\<close>

lemma same_but_flush_refl [simp]: "same_but_flush r r"
  by (simp add: same_but_flush_def)

lemma same_but_flushI:
  "r' = r\<lparr>pendingEntityFlush := b, immediates := q\<rparr> \<Longrightarrow> same_but_flush r r'"
  by (simp add: same_but_flush_def)

lemma same_but_flush_trans:
  "same_but_flush r r' \<Longrightarrow> same_but_flush r' r'' \<Longrightarrow> same_but_flush r r''"
  unfolding same_but_flush_def
  by (metis (no_types, lifting) registry.surjective registry.update_convs(4,9))

lemma idle_same: "same_but_flush r r' \<Longrightarrow> idle r' = idle r"
  unfolding same_but_flush_def idle_def
  by (metis (no_types, lifting) registry.select_convs registry.surjective registry.update_convs(4,9))

lemma run_immediate_not_started: "\<not> started r \<Longrightarrow> run_immediate c r = r"
  by (cases c) (simp add: saveToDynamicData_not_started)

lemma foldl_run_immediate_not_started:
  "\<not> started r \<Longrightarrow> foldl (\<lambda>r' c. run_immediate c r') r cs = r"
  by (induction cs) (simp_all add: run_immediate_not_started)

lemma step_before_start:
  assumes "idle r" and "before_start op"
  shows "same_but_flush r (step op r)"
proof (cases op)
  case (Settle n)
  then show ?thesis using assms by (simp add: idle_def settle_def)
next
  case (KillEntity i)
  then show ?thesis using assms
    by (auto simp: idle_def killEntity_def markPendingFlush_def intro: same_but_flushI)
next
  case KillAllEntities
  then show ?thesis using assms
    by (auto simp: idle_def killAllEntities_def markPendingFlush_def intro: same_but_flushI)
next
  case MarkPendingFlush
  then show ?thesis by (auto simp: markPendingFlush_def intro: same_but_flushI)
next
  case RunImmediates
  have "\<not> started (r\<lparr>immediates := []\<rparr>)" using assms by (simp add: idle_def)
  then have "run_immediates r = r\<lparr>immediates := []\<rparr>"
    by (simp add: run_immediates_def foldl_run_immediate_not_started)
  then show ?thesis using RunImmediates by (simp add: same_but_flush_def)
qed (use assms in \<open>simp_all add: idle_def newEntity_not_started resetEntities_not_started
       saveToDynamicData_not_started\<close>)

lemma run_before_start:
  "idle r \<Longrightarrow> \<forall>op \<in> set ops. before_start op \<Longrightarrow> same_but_flush r (run ops r)"
proof (induction ops arbitrary: r)
  case Nil
  then show ?case by (simp add: run_def)
next
  case (Cons op ops)
  have 1: "same_but_flush r (step op r)" using Cons.prems by (intro step_before_start) simp_all
  then have "idle (step op r)" using Cons.prems(1) by (simp add: idle_same)
  then have "same_but_flush (step op r) (run ops (step op r))"
    using Cons.prems(2) by (intro Cons.IH) simp_all
  with 1 have "same_but_flush r (run ops (step op r))" by (rule same_but_flush_trans)
  then show ?case by (simp add: run_def)
qed

subsection \<open>Marked flushes and the turn of the callbacks\<close>

lemma modify_calls_trace: "trace r' = trace r @ map OnKill vs \<Longrightarrow> modify_calls r' = modify_calls r"
  by (simp add: modify_calls_def)









lemma same_but_flush_fields:
  assumes "same_but_flush r r'"
  shows "started r' = started r" "entities r' = entities r" "objs r' = objs r"
    "entityData r' = entityData r" "factoryPromises r' = factoryPromises r"
    "trace r' = trace r" "entityTypes r' = entityTypes r"
    "duringOurModification r' = duringOurModification r"
proof -
  obtain b q where e: "r' = r\<lparr>pendingEntityFlush := b, immediates := q\<rparr>"
    using assms unfolding same_but_flush_def by blast
  show "started r' = started r" "entities r' = entities r" "objs r' = objs r"
    "entityData r' = entityData r" "factoryPromises r' = factoryPromises r"
    "trace r' = trace r" "entityTypes r' = entityTypes r"
    "duringOurModification r' = duringOurModification r"
    by (simp_all add: e)
qed

lemma reset_runs_resetEntities: "started r \<Longrightarrow> reset_runs (resetEntities r) = reset_runs r + 1"
proof -
  assume s: "started r"
  have 1: "filter (\<lambda>e. e = ResetRan) (map (\<lambda>p. OnKill (snd p)) ks) = []" for ks :: "(string \<times> nat) list"
    by (induction ks) simp_all
  have 2: "filter (\<lambda>e. e = ResetRan) (unknown_type_logs types ds) = []" for types ds
    by (induction ds) (simp_all add: unknown_type_logs_def split: option.splits)
  show ?thesis using s by (simp add: resetEntities_started reset_runs_def 1 2)
qed

subsection \<open>Concrete runs\<close>

text \<open>The equations that evaluate a concrete run.\<close>

lemmas registry_eval = run_def start_def resetEntities_def killAllEntities_def markPendingFlush_def
  newEntity_def settle_def newEntity_resolved_def newEntity_rejected_def killEntity_def kill_steps_def
  set_key_def has_key_def delete_key_def is_index_def before_key_def fromDigits_def digit_val_def
  digit_char_def toString.simps find_free_id.simps Let_def
  EntityRegistry_constructor_def register_factory_def Entity_constructor_def
  saveToDynamicData_def DynamicData_modify_def onModify_handler_def toSaveData_def run_immediates_def
  example_record_def example_factory_def example_registry_def modify_calls_def reset_runs_def

section \<open>Properties of entities\<close>

text \<open>
  Claim C8. One run of the expiry check of an entity whose kill time is not 0: an entity
  already killed returns and schedules nothing; once the clock has reached the kill time
  the check calls the bound \<^verbatim>\<open>kill()\<close> and, when that returns, schedules the next check
  1000 ms later (an exception of \<^verbatim>\<open>kill()\<close> leaves the check at once); before the kill time
  the next check is scheduled after exactly the kill time minus the clock reading.
\<close>

theorem expiry_check_step:
  assumes "ent_killTime this \<noteq> 0"
  shows "(killed this \<longrightarrow> entityCheckIfShouldKill kill time this w = Inr (w, None))
       \<and> (\<not> killed this \<and> ent_killTime this \<le> time \<longrightarrow>
            entityCheckIfShouldKill kill time this w =
              (case kill w of Inl err \<Rightarrow> Inl err | Inr w' \<Rightarrow> Inr (w', Some 1000)))
       \<and> (\<not> killed this \<and> time < ent_killTime this \<longrightarrow>
            entityCheckIfShouldKill kill time this w = Inr (w, Some (ent_killTime this - time)))"
  using assms by (simp add: entityCheckIfShouldKill_def)

text \<open>
  The three cases on an entity with kill time 5 whose \<^verbatim>\<open>kill()\<close> counts its calls: killed
  at time 7, alive at time 7, alive at time 2. With \<^verbatim>\<open>kill()\<close> of the base class the check
  at time 7 ends in its exception.
\<close>

theorem expiry_check_step_witness:
  "entityCheckIfShouldKill (\<lambda>n::nat. Inr (Suc n)) 7
      \<lparr>killed = True, ent_id = Some ''a'', ent_type = ''x'', ent_createTime = 1, ent_killTime = 5\<rparr> 0
     = Inr (0, None)
   \<and> entityCheckIfShouldKill (\<lambda>n::nat. Inr (Suc n)) 7
      \<lparr>killed = False, ent_id = Some ''a'', ent_type = ''x'', ent_createTime = 1, ent_killTime = 5\<rparr> 0
     = Inr (Suc 0, Some 1000)
   \<and> entityCheckIfShouldKill (\<lambda>n::nat. Inr (Suc n)) 2
      \<lparr>killed = False, ent_id = Some ''a'', ent_type = ''x'', ent_createTime = 1, ent_killTime = 5\<rparr> 0
     = Inr (0, Some 3)
   \<and> entityCheckIfShouldKill Entity_kill 7
      \<lparr>killed = False, ent_id = Some ''a'', ent_type = ''x'', ent_createTime = 1, ent_killTime = 5\<rparr> (0::nat)
     = Inl ''Subclass did not implement kill()''"
  using expiry_check_step [of "\<lparr>killed = True, ent_id = Some ''a'', ent_type = ''x'',
            ent_createTime = 1, ent_killTime = 5\<rparr>" "\<lambda>n::nat. Inr (Suc n)" 7 0]
        expiry_check_step [of "\<lparr>killed = False, ent_id = Some ''a'', ent_type = ''x'',
            ent_createTime = 1, ent_killTime = 5\<rparr>" "\<lambda>n::nat. Inr (Suc n)" 7 0]
        expiry_check_step [of "\<lparr>killed = False, ent_id = Some ''a'', ent_type = ''x'',
            ent_createTime = 1, ent_killTime = 5\<rparr>" "\<lambda>n::nat. Inr (Suc n)" 2 0]
        expiry_check_step [of "\<lparr>killed = False, ent_id = Some ''a'', ent_type = ''x'',
            ent_createTime = 1, ent_killTime = 5\<rparr>" Entity_kill 7 "0::nat"]
  by (simp add: Entity_kill_def)

text \<open>
  Claim C7. Round trip through the base class: let \<open>e\<close> be the entity the constructor
  builds from a record \<open>r\<close>. The entity built from \<open>toSaveData e\<close>, at any later time
  and under any id, saves to the same record as \<open>e\<close>, and has the type, the creation
  time and the kill time of \<open>e\<close>.
\<close>

theorem round_trip:
  "toSaveData (Entity_constructor time' i' (toSaveData (Entity_constructor time i r)))
     = toSaveData (Entity_constructor time i r)
   \<and> ent_type (Entity_constructor time' i' (toSaveData (Entity_constructor time i r)))
     = ent_type (Entity_constructor time i r)
   \<and> ent_createTime (Entity_constructor time' i' (toSaveData (Entity_constructor time i r)))
     = ent_createTime (Entity_constructor time i r)
   \<and> ent_killTime (Entity_constructor time' i' (toSaveData (Entity_constructor time i r)))
     = ent_killTime (Entity_constructor time i r)"
  by (simp add: toSaveData_def Entity_constructor_def)

section \<open>Properties of the registry\<close>

text \<open>
  Claim C1. Self-origin suppression. While \<^verbatim>\<open>duringOurModification\<close> is set, the
  handler of the store's change notification does nothing. So a write of
  \<^verbatim>\<open>saveToDynamicData\<close> on a started registry replaces the store's records by the saved
  forms of the live entities, records one call of \<^verbatim>\<open>modify\<close>, clears both flags and
  changes nothing else: the notification it triggers does not run \<^verbatim>\<open>resetEntities\<close>.
  With the guard clear, the same notification runs \<^verbatim>\<open>resetEntities\<close> once.
\<close>

theorem self_origin_suppression:
  "(duringOurModification r \<longrightarrow> onModify_handler r = r)
   \<and> (started r \<longrightarrow>
        saveToDynamicData r =
          r\<lparr>entityData := map (\<lambda>p. toSaveData (objs r ! snd p)) (entities r),
            trace := trace r @ [ModifyCalled],
            duringOurModification := False, pendingEntityFlush := False\<rparr>)
   \<and> (started r \<longrightarrow> reset_runs (saveToDynamicData r) = reset_runs r)
   \<and> (started r \<and> \<not> duringOurModification r \<longrightarrow>
        onModify_handler r = resetEntities r \<and> reset_runs (onModify_handler r) = reset_runs r + 1)"
  by (simp add: onModify_handler_guarded saveToDynamicData_started reset_runs_def
      onModify_handler_def reset_runs_resetEntities [unfolded reset_runs_def])

text \<open>
  On the started example registry with its one live entity: the save calls
  \<^verbatim>\<open>modify\<close> once, the number of resets stays 1 and the entity stays live; with the
  guard set the handler returns the state it was given. A change of the store by another
  party resets the registry: a second reset runs and the live map is empty until the
  factories have resolved again.
\<close>

theorem self_origin_suppression_witness:
  "started (run [Start, Settle 0] example_registry)
   \<and> reset_runs (run [Start, Settle 0] example_registry) = 1
   \<and> reset_runs (saveToDynamicData (run [Start, Settle 0] example_registry)) = 1
   \<and> modify_calls (saveToDynamicData (run [Start, Settle 0] example_registry)) = 1
   \<and> entities (saveToDynamicData (run [Start, Settle 0] example_registry)) = [(''0'', 0)]
   \<and> onModify_handler ((run [Start, Settle 0] example_registry)\<lparr>duringOurModification := True\<rparr>)
       = (run [Start, Settle 0] example_registry)\<lparr>duringOurModification := True\<rparr>
   \<and> \<not> duringOurModification (run [Start, Settle 0] example_registry)
   \<and> reset_runs (step (StoreChanged [example_record]) (run [Start, Settle 0] example_registry)) = 2
   \<and> entities (step (StoreChanged [example_record]) (run [Start, Settle 0] example_registry)) = []"
  using self_origin_suppression [of "run [Start, Settle 0] example_registry"]
    self_origin_suppression [of "(run [Start, Settle 0] example_registry)\<lparr>duringOurModification := True\<rparr>"]
  by (simp add: registry_eval split del: if_split)






text \<open>
  Claim C4. Generated ids. When the factory resolves with an object that has no id, the
  registry gives it the id \<open>toString n\<close> for the least \<open>n\<close> whose decimal string is not
  a live id, and inserts it under that id; no live entity is replaced. In particular, a
  registry started on the store \<^verbatim>\<open>[{type:'x', createTime:100}]\<close> whose factory for
  \<open>x\<close> resolves with an object without an id has, once that promise has settled,
  exactly one live entry, under the id 0.
\<close>

theorem generated_id:
  "(ent_id newEnt = None \<longrightarrow>
      (\<exists>n. \<not> has_key (toString n) (entities r)
        \<and> (\<forall>j<n. has_key (toString j) (entities r))
        \<and> newEntity_resolved newEnt r =
            (Resolved (length (objs r)),
             markPendingFlush (markPendingFlush
               (r\<lparr>objs := objs r @ [newEnt\<lparr>ent_id := Some (toString n)\<rparr>],
                  entities := set_key (toString n) (length (objs r)) (entities r)\<rparr>)))
        \<and> map_of (entities (snd (newEntity_resolved newEnt r)))
            = (map_of (entities r))(toString n \<mapsto> length (objs r))))
   \<and> (f \<lparr>type = ''x'', createTime = Some 100, killTime = None\<rparr> = Inr e \<and> ent_id e = None \<longrightarrow>
        entities (run [Start, Settle 0]
          (register_factory ''x'' f
            (EntityRegistry_constructor [\<lparr>type = ''x'', createTime = Some 100, killTime = None\<rparr>])))
        = [(''0'', 0)])"
proof (intro conjI impI)
  assume none: "ent_id newEnt = None"
  define n where "n = (LEAST n. \<not> has_key (toString n) (entities r))"
  have id: "find_free_id (entities r) 0 = toString n"
    by (simp add: n_def find_free_id_least)
  have free: "\<not> has_key (toString n) (entities r)"
    using find_free_id_free [of "entities r" 0] by (simp add: id)
  have low: "\<forall>j<n. has_key (toString j) (entities r)"
    unfolding n_def using not_less_Least by blast
  have res: "newEntity_resolved newEnt r =
      (Resolved (length (objs r)),
       markPendingFlush (markPendingFlush
         (r\<lparr>objs := objs r @ [newEnt\<lparr>ent_id := Some (toString n)\<rparr>],
            entities := set_key (toString n) (length (objs r)) (entities r)\<rparr>)))"
    using newEntity_resolved_no_id [OF none, of r] by (simp add: id)
  have "map_of (entities (snd (newEntity_resolved newEnt r)))
      = (map_of (entities r))(toString n \<mapsto> length (objs r))"
    by (simp add: res map_of_set_key [OF free])
  with free low res show "\<exists>n. \<not> has_key (toString n) (entities r)
        \<and> (\<forall>j<n. has_key (toString j) (entities r))
        \<and> newEntity_resolved newEnt r =
            (Resolved (length (objs r)),
             markPendingFlush (markPendingFlush
               (r\<lparr>objs := objs r @ [newEnt\<lparr>ent_id := Some (toString n)\<rparr>],
                  entities := set_key (toString n) (length (objs r)) (entities r)\<rparr>)))
        \<and> map_of (entities (snd (newEntity_resolved newEnt r)))
            = (map_of (entities r))(toString n \<mapsto> length (objs r))"
    by blast
next
  assume "f \<lparr>type = ''x'', createTime = Some 100, killTime = None\<rparr> = Inr e \<and> ent_id e = None"
  then show "entities (run [Start, Settle 0]
          (register_factory ''x'' f
            (EntityRegistry_constructor [\<lparr>type = ''x'', createTime = Some 100, killTime = None\<rparr>])))
        = [(''0'', 0)]"
    by (simp add: registry_eval split del: if_split)
qed

text \<open>
  The example registry after start, and a second entity without an id, which gets the
  id 1.
\<close>

theorem generated_id_witness:
  "ent_id \<lparr>killed = False, ent_id = None, ent_type = ''x'', ent_createTime = 5, ent_killTime = 0\<rparr> = None
   \<and> entities (run [Start, Settle 0] example_registry) = [(''0'', 0)]
   \<and> entities (snd (newEntity_resolved
        \<lparr>killed = False, ent_id = None, ent_type = ''x'', ent_createTime = 5, ent_killTime = 0\<rparr>
        (run [Start, Settle 0] example_registry))) = [(''0'', 0), (''1'', 1)]
   \<and> map ent_id (objs (snd (newEntity_resolved
        \<lparr>killed = False, ent_id = None, ent_type = ''x'', ent_createTime = 5, ent_killTime = 0\<rparr>
        (run [Start, Settle 0] example_registry)))) = [Some ''0'', Some ''1'']"
  using generated_id [of "\<lparr>killed = False, ent_id = None, ent_type = ''x'', ent_createTime = 5,
      ent_killTime = 0\<rparr>" "run [Start, Settle 0] example_registry" example_factory
      "(Entity_constructor 0 ''unused'' example_record)\<lparr>ent_id := None\<rparr>"]
  by (simp add: registry_eval split del: if_split)




text \<open>
  Claim C6. Before \<^verbatim>\<open>start()\<close>: \<^verbatim>\<open>newEntity\<close> rejects at once, and
  \<^verbatim>\<open>resetEntities\<close>, \<^verbatim>\<open>saveToDynamicData\<close> and the handler of the store's notification
  return the state unchanged. A registry that has not started has no live entity and no
  factory call in flight, and then no sequence of calls other than \<^verbatim>\<open>start()\<close>
  constructs or kills an entity, writes to the store, calls \<^verbatim>\<open>modify\<close> or logs anything.
  No operation of the model has an error result.
\<close>

theorem not_started_noop:
  assumes "\<not> started r"
  shows "newEntity data r = (Rejected, r)
       \<and> resetEntities r = r
       \<and> saveToDynamicData r = r
       \<and> onModify_handler r = r
       \<and> (entities r = [] \<and> factoryPromises r = [] \<and> (\<forall>op \<in> set ops. before_start op) \<longrightarrow>
            \<not> started (run ops r) \<and> entities (run ops r) = [] \<and> objs (run ops r) = objs r
            \<and> factoryPromises (run ops r) = [] \<and> entityData (run ops r) = entityData r
            \<and> trace (run ops r) = trace r \<and> modify_calls (run ops r) = modify_calls r)"
proof -
  have "\<not> started (run ops r) \<and> entities (run ops r) = [] \<and> objs (run ops r) = objs r
            \<and> factoryPromises (run ops r) = [] \<and> entityData (run ops r) = entityData r
            \<and> trace (run ops r) = trace r \<and> modify_calls (run ops r) = modify_calls r"
    if "entities r = []" "factoryPromises r = []" "\<forall>op \<in> set ops. before_start op"
  proof -
    have "idle r" using assms that by (simp add: idle_def)
    then have "same_but_flush r (run ops r)" using that(3) by (rule run_before_start)
    from same_but_flush_fields [OF this] show ?thesis
      using assms that by (simp add: modify_calls_def)
  qed
  then show ?thesis
    using assms
    by (simp add: newEntity_not_started resetEntities_not_started saveToDynamicData_not_started
        onModify_handler_def)
qed

text \<open>
  Eight calls on the example registry before its start.
\<close>

theorem not_started_noop_witness:
  "\<not> started example_registry
   \<and> newEntity example_record example_registry = (Rejected, example_registry)
   \<and> modify_calls (run [NewEntity example_record, KillEntity ''0'', ResetEntities, KillAllEntities,
        SaveToDynamicData, MarkPendingFlush, Settle 0, RunImmediates] example_registry) = 0
   \<and> entityData (run [NewEntity example_record, KillEntity ''0'', ResetEntities, KillAllEntities,
        SaveToDynamicData, MarkPendingFlush, Settle 0, RunImmediates] example_registry)
       = [example_record]
   \<and> trace (run [NewEntity example_record, KillEntity ''0'', ResetEntities, KillAllEntities,
        SaveToDynamicData, MarkPendingFlush, Settle 0, RunImmediates] example_registry) = []"
  using not_started_noop [of example_registry example_record
      "[NewEntity example_record, KillEntity ''0'', ResetEntities, KillAllEntities,
        SaveToDynamicData, MarkPendingFlush, Settle 0, RunImmediates]"]
  by (simp add: registry_eval split del: if_split)




text \<open>
  Claim C10. The saved form of an entity has its type, creation time and kill time and
  does not depend on its id. So \<^verbatim>\<open>saveToDynamicData\<close> stores records without ids, and a
  reload passes exactly these records to the factories.
\<close>

theorem ids_not_persisted:
  "toSaveData e = \<lparr>type = ent_type e, createTime = Some (ent_createTime e),
                    killTime = Some (ent_killTime e)\<rparr>
   \<and> toSaveData (e\<lparr>ent_id := i\<rparr>) = toSaveData e
   \<and> (started r \<longrightarrow>
        entityData (saveToDynamicData r) = map (\<lambda>p. toSaveData (objs r ! snd p)) (entities r)
        \<and> factoryPromises (resetEntities (saveToDynamicData r))
            = factoryPromises r
              @ factory_calls (entityTypes r) (map (\<lambda>p. toSaveData (objs r ! snd p)) (entities r)))"
  by (simp add: toSaveData_def saveToDynamicData_started resetEntities_started)

text \<open>
  A factory that names its entities, for the concrete run: the id \<open>twitch\<close> is in the
  live map and not in the store.
\<close>

definition named_factory :: factory where
  "named_factory data = Inr (Entity_constructor 0 ''twitch'' data)"

theorem ids_not_persisted_witness:
  "started (run [Start, Settle 0] (register_factory ''x'' named_factory (EntityRegistry_constructor [example_record])))
   \<and> entities (run [Start, Settle 0] (register_factory ''x'' named_factory (EntityRegistry_constructor [example_record])))
       = [(''twitch'', 0)]
   \<and> entityData (saveToDynamicData (run [Start, Settle 0]
        (register_factory ''x'' named_factory (EntityRegistry_constructor [example_record]))))
       = [\<lparr>type = ''x'', createTime = Some 100, killTime = Some 0\<rparr>]
   \<and> factoryPromises (resetEntities (saveToDynamicData (run [Start, Settle 0]
        (register_factory ''x'' named_factory (EntityRegistry_constructor [example_record])))))
       = [named_factory \<lparr>type = ''x'', createTime = Some 100, killTime = Some 0\<rparr>]"
  using ids_not_persisted [of _ _ "run [Start, Settle 0]
      (register_factory ''x'' named_factory (EntityRegistry_constructor [example_record]))"]
  by (simp add: registry_eval named_factory_def factory_calls_def split del: if_split)

end
